theory Spec2Isabelle
  imports Main
begin

section \<open>Python strings\<close>

text \<open>
  A Python \<^verbatim>\<open>str\<close> is a sequence of Unicode code points, so it is modelled as a list of
  natural numbers (the code points), not as a list of bytes: the prompt and the completions
  carry Telugu script, and \<^verbatim>\<open>str.strip()\<close> looks at code points beyond ASCII.
  \<open>str\<close> turns an ASCII literal into such a sequence.
\<close>

type_synonym ustr = "nat list"

definition str :: "string \<Rightarrow> ustr" where
  "str s = map of_char s"

text \<open>
  \<^verbatim>\<open>str.isspace\<close> on one code point, as CPython's \<^verbatim>\<open>_PyUnicode_IsWhitespace\<close> has it:
  TAB to CR, FS to US, SPACE, NEL, NBSP, OGHAM SPACE MARK, EN QUAD to HAIR SPACE,
  LINE and PARAGRAPH SEPARATOR, NARROW NBSP, MEDIUM MATHEMATICAL SPACE, IDEOGRAPHIC SPACE.
\<close>

definition is_space :: "nat \<Rightarrow> bool" where
  "is_space c \<longleftrightarrow>
     (9 \<le> c \<and> c \<le> 13) \<or> (28 \<le> c \<and> c \<le> 32) \<or> c = 133 \<or> c = 160 \<or> c = 5760 \<or>
     (8192 \<le> c \<and> c \<le> 8202) \<or> c = 8232 \<or> c = 8233 \<or> c = 8239 \<or> c = 8287 \<or> c = 12288"

text \<open>
  \<^verbatim>\<open>s.strip()\<close> and \<^verbatim>\<open>s.strip(chars)\<close>: the longest prefix and the longest suffix made of
  characters of the class are removed. With an argument, the class is the SET of the
  characters of the argument, whatever their order and number.
\<close>

definition strip_where :: "(nat \<Rightarrow> bool) \<Rightarrow> ustr \<Rightarrow> ustr" where
  "strip_where p s = rev (dropWhile p (rev (dropWhile p s)))"

definition strip :: "ustr \<Rightarrow> ustr" where
  "strip s = strip_where is_space s"

definition strip_chars :: "ustr \<Rightarrow> ustr \<Rightarrow> ustr" where
  "strip_chars chars s = strip_where (\<lambda>c. c \<in> set chars) s"

text \<open>
  \<^verbatim>\<open>s.split(sep)\<close> for a separator of one character, which is how the source calls it
  (\<^verbatim>\<open>split(",")\<close>): one piece more than there are separators, empty pieces kept, so the
  result is never the empty list.
\<close>

fun split :: "nat \<Rightarrow> ustr \<Rightarrow> ustr list" where
  "split sep [] = [[]]"
| "split sep (c # cs) =
     (if c = sep then [] # split sep cs
      else (case split sep cs of
              [] \<Rightarrow> [[c]]
            | w # ws \<Rightarrow> (c # w) # ws))"

text \<open>\<^verbatim>\<open>str(n)\<close> for an integer: its decimal digits, with a minus sign when negative.\<close>

fun digits :: "nat \<Rightarrow> ustr" where
  "digits n = (if n < 10 then [48 + n] else digits (n div 10) @ [48 + n mod 10])"

declare digits.simps [simp del]

definition str_of_int :: "int \<Rightarrow> ustr" where
  "str_of_int i = (if i < 0 then 45 # digits (nat (- i)) else digits (nat i))"

text \<open>\<^verbatim>\<open>sub in s\<close> for two strings: \<open>sub\<close> occurs in \<open>s\<close> as a contiguous run.\<close>

fun contains :: "ustr \<Rightarrow> ustr \<Rightarrow> bool" where
  "contains sub [] \<longleftrightarrow> sub = []"
| "contains sub (c # cs) \<longleftrightarrow> take (length sub) (c # cs) = sub \<or> contains sub cs"

section \<open>JSON values and Python exceptions\<close>

text \<open>
  What \<^verbatim>\<open>json.loads\<close> builds, and what the program builds itself as dict literals. A dict is
  an association list in insertion order with distinct keys. A float is kept as the text
  it was read from (\<^verbatim>\<open>float(text)\<close>, including \<^verbatim>\<open>NaN\<close>, \<^verbatim>\<open>Infinity\<close> and \<^verbatim>\<open>-Infinity\<close>):
  nothing in the program computes with it.
\<close>

datatype json =
    JNull
  | JBool bool
  | JInt int
  | JFloat ustr
  | JStr ustr
  | JList "json list"
  | JDict "(ustr \<times> json) list"

text \<open>
  The exceptions the program can meet, as far as its \<^verbatim>\<open>except\<close> clauses tell them apart.
  \<open>RequestsTimeout\<close> is any instance of \<^verbatim>\<open>requests.exceptions.Timeout\<close> (\<^verbatim>\<open>ConnectTimeout\<close>
  included: the \<^verbatim>\<open>Timeout\<close> clause comes first), \<open>RequestsConnectionError\<close> any other instance
  of \<^verbatim>\<open>requests.exceptions.ConnectionError\<close>, \<open>JSONDecodeError\<close> any instance of
  \<^verbatim>\<open>json.JSONDecodeError\<close>, \<open>OtherException\<close> any other instance of \<^verbatim>\<open>Exception\<close>. The
  argument of the first two and of the last tells two exceptions of the environment apart.
  What is raised outside \<^verbatim>\<open>Exception\<close> (\<^verbatim>\<open>KeyboardInterrupt\<close>, \<^verbatim>\<open>SystemExit\<close>) is not modelled.
\<close>

datatype exn =
    RequestsTimeout ustr
  | RequestsConnectionError ustr
  | JSONDecodeError
  | RecursionError
  | KeyError
  | IndexError
  | TypeError
  | AttributeError
  | ValueError ustr
  | OtherException ustr

abbreviation QUOTE :: nat where "QUOTE \<equiv> 34"
abbreviation BACKSLASH :: nat where "BACKSLASH \<equiv> 92"
abbreviation LBRACE :: nat where "LBRACE \<equiv> 123"
abbreviation RBRACE :: nat where "RBRACE \<equiv> 125"
abbreviation LBRACKET :: nat where "LBRACKET \<equiv> 91"
abbreviation RBRACKET :: nat where "RBRACKET \<equiv> 93"
abbreviation COMMA :: nat where "COMMA \<equiv> 44"
abbreviation COLON :: nat where "COLON \<equiv> 58"
abbreviation BACKTICK :: nat where "BACKTICK \<equiv> 96"

text \<open>\<^verbatim>\<open>d[k] = v\<close> on a dict: an existing key keeps its place and takes the new value.\<close>

fun dict_set :: "ustr \<Rightarrow> json \<Rightarrow> (ustr \<times> json) list \<Rightarrow> (ustr \<times> json) list" where
  "dict_set k v [] = [(k, v)]"
| "dict_set k v ((k', v') # ps) =
     (if k' = k then (k', v) # ps else (k', v') # dict_set k v ps)"

section \<open>The JSON decoder of the standard library\<close>

text \<open>
  \<^verbatim>\<open>json.loads\<close> on a \<^verbatim>\<open>str\<close>, as CPython's decoder reads it (\<^verbatim>\<open>json/decoder.py\<close> and the
  scanner of \<^verbatim>\<open>_json.c\<close>, strict mode, no hooks). The decoder walks the text with an index;
  here every function takes the text from the index on and returns the rest.
\<close>

definition is_json_ws :: "nat \<Rightarrow> bool" where
  "is_json_ws c \<longleftrightarrow> c = 32 \<or> c = 9 \<or> c = 10 \<or> c = 13"

definition skip_ws :: "ustr \<Rightarrow> ustr" where
  "skip_ws s = dropWhile is_json_ws s"

definition next_is :: "nat \<Rightarrow> ustr \<Rightarrow> bool" where
  "next_is c s = (case s of [] \<Rightarrow> False | x # _ \<Rightarrow> x = c)"

definition is_digit :: "nat \<Rightarrow> bool" where
  "is_digit c \<longleftrightarrow> 48 \<le> c \<and> c \<le> 57"

definition hexval :: "nat \<Rightarrow> nat option" where
  "hexval c =
     (if 48 \<le> c \<and> c \<le> 57 then Some (c - 48)
      else if 97 \<le> c \<and> c \<le> 102 then Some (c - 87)
      else if 65 \<le> c \<and> c \<le> 70 then Some (c - 55)
      else None)"

text \<open>The four hexadecimal digits of a \<^verbatim>\<open>\uXXXX\<close> escape.\<close>

definition hex4 :: "ustr \<Rightarrow> (nat \<times> ustr) option" where
  "hex4 s =
     (case s of
        a # b # c # d # r \<Rightarrow>
          (case (hexval a, hexval b, hexval c, hexval d) of
             (Some h1, Some h2, Some h3, Some h4) \<Rightarrow>
               Some (((h1 * 16 + h2) * 16 + h3) * 16 + h4, r)
           | _ \<Rightarrow> None)
      | _ \<Rightarrow> None)"

text \<open>
  One escape, read after its backslash. A high surrogate followed by the escape of a low
  surrogate makes one code point; followed by any other \<^verbatim>\<open>\uXXXX\<close> it stands alone and the
  second escape is read again on its own.
\<close>

definition unescape :: "ustr \<Rightarrow> (nat \<times> ustr) option" where
  "unescape s =
     (case s of
        [] \<Rightarrow> None
      | e # r \<Rightarrow>
          if e = 117 then
            (case hex4 r of
               None \<Rightarrow> None
             | Some (c, r1) \<Rightarrow>
                 if 55296 \<le> c \<and> c \<le> 56319 \<and> 6 < length r1 \<and> take 2 r1 = [BACKSLASH, 117] then
                   (case hex4 (drop 2 r1) of
                      None \<Rightarrow> None
                    | Some (c2, r2) \<Rightarrow>
                        if 56320 \<le> c2 \<and> c2 \<le> 57343
                        then Some (65536 + (c - 55296) * 1024 + (c2 - 56320), r2)
                        else Some (c, r1))
                 else Some (c, r1))
          else if e = QUOTE \<or> e = BACKSLASH \<or> e = 47 then Some (e, r)
          else if e = 98 then Some (8, r)
          else if e = 102 then Some (12, r)
          else if e = 110 then Some (10, r)
          else if e = 114 then Some (13, r)
          else if e = 116 then Some (9, r)
          else None)"

text \<open>
  \<^verbatim>\<open>scanstring\<close>, called after the opening quote: the decoded string and the text after the
  closing quote. A control character (below U+0020) inside the string, an unknown escape
  and a missing closing quote are errors.
\<close>

function scanstring :: "ustr \<Rightarrow> (ustr \<times> ustr) option" where
  "scanstring [] = None"
| "scanstring (c # cs) =
     (if c = QUOTE then Some ([], cs)
      else if c = BACKSLASH then
        (case unescape cs of
           None \<Rightarrow> None
         | Some (ch, r) \<Rightarrow>
             (case scanstring r of None \<Rightarrow> None | Some (v, r') \<Rightarrow> Some (ch # v, r')))
      else if c \<le> 31 then None
      else (case scanstring cs of None \<Rightarrow> None | Some (v, r') \<Rightarrow> Some (c # v, r')))"
  by pat_completeness auto
termination
proof (relation "measure length")
  have hex4_shorter: "length r < length s" if "hex4 s = Some (c, r)" for s c r
    using that by (auto simp: hex4_def split: list.splits option.splits)
  have unescape_shorter: "length r < length s" if "unescape s = Some (c, r)" for s c r
    using that
    by (auto simp: unescape_def split: list.splits option.splits if_splits
             dest!: hex4_shorter)
  show "(y, c # cs) \<in> measure length"
    if "unescape cs = Some x2" and "(x, y) = x2" for c cs x2 and x :: nat and y
    using unescape_shorter [of cs x y] that by simp
qed simp_all

text \<open>
  \<^verbatim>\<open>_match_number\<close>: an optional minus, \<^verbatim>\<open>0\<close> or a digit string not starting with \<^verbatim>\<open>0\<close>, then
  a fraction (a dot and at least one digit) and an exponent (\<^verbatim>\<open>e\<close> or \<^verbatim>\<open>E\<close>, an optional
  sign, at least one digit), each taken only when complete. With a fraction or an exponent
  the number is a float, otherwise an int.
\<close>

definition int_of_digits :: "ustr \<Rightarrow> int" where
  "int_of_digits ds = foldl (\<lambda>a d. 10 * a + int (d - 48)) 0 ds"

definition int_part :: "ustr \<Rightarrow> ustr" where
  "int_part s = (if hd s = 48 then [48] else takeWhile is_digit s)"

definition frac_part :: "ustr \<Rightarrow> ustr" where
  "frac_part s =
     (if next_is 46 s \<and> tl s \<noteq> [] \<and> is_digit (hd (tl s))
      then 46 # takeWhile is_digit (tl s) else [])"

definition exp_part :: "ustr \<Rightarrow> ustr" where
  "exp_part s =
     (let sg = (if next_is 101 s \<or> next_is 69 s
                then (if next_is 43 (tl s) \<or> next_is 45 (tl s) then take 2 s else take 1 s)
                else []);
          ed = takeWhile is_digit (drop (length sg) s)
      in if sg \<noteq> [] \<and> ed \<noteq> [] then sg @ ed else [])"

definition match_number :: "ustr \<Rightarrow> (json \<times> ustr) option" where
  "match_number s =
     (let neg = next_is 45 s;
          s1 = (if neg then tl s else s)
      in if s1 = [] \<or> \<not> is_digit (hd s1) then None
         else
           let ip = int_part s1;
               s2 = drop (length ip) s1;
               fp = frac_part s2;
               s3 = drop (length fp) s2;
               ep = exp_part s3;
               s4 = drop (length ep) s3
           in if fp = [] \<and> ep = []
              then Some (JInt ((if neg then - 1 else 1) * int_of_digits ip), s4)
              else Some (JFloat ((if neg then [45] else []) @ ip @ fp @ ep), s4))"

text \<open>
  \<^verbatim>\<open>scan_once\<close> with the loops of \<^verbatim>\<open>_parse_array\<close> and \<^verbatim>\<open>_parse_object\<close>. The first argument
  bounds the number of nested calls; \<open>Exhausted\<close> says the bound was reached.
  \<open>parse_array\<close> stands at the start of an element, \<open>parse_object\<close> at the start of a key,
  each with what was read so far.
\<close>

datatype scanned = Scanned json ustr | Malformed | Exhausted

fun scan_once :: "nat \<Rightarrow> ustr \<Rightarrow> scanned"
  and parse_array :: "nat \<Rightarrow> ustr \<Rightarrow> json list \<Rightarrow> scanned"
  and parse_object :: "nat \<Rightarrow> ustr \<Rightarrow> (ustr \<times> json) list \<Rightarrow> scanned"
where
  "scan_once 0 s = Exhausted"
| "scan_once (Suc n) s =
     (if s = [] then Malformed
      else if hd s = QUOTE then
        (case scanstring (tl s) of
           None \<Rightarrow> Malformed
         | Some (v, r) \<Rightarrow> Scanned (JStr v) r)
      else if hd s = LBRACE then
        (if next_is RBRACE (skip_ws (tl s)) then Scanned (JDict []) (tl (skip_ws (tl s)))
         else parse_object n (skip_ws (tl s)) [])
      else if hd s = LBRACKET then
        (if next_is RBRACKET (skip_ws (tl s)) then Scanned (JList []) (tl (skip_ws (tl s)))
         else parse_array n (skip_ws (tl s)) [])
      else if take 4 s = str ''null'' then Scanned JNull (drop 4 s)
      else if take 4 s = str ''true'' then Scanned (JBool True) (drop 4 s)
      else if take 5 s = str ''false'' then Scanned (JBool False) (drop 5 s)
      else if take 3 s = str ''NaN'' then Scanned (JFloat (str ''NaN'')) (drop 3 s)
      else if take 8 s = str ''Infinity'' then Scanned (JFloat (str ''Infinity'')) (drop 8 s)
      else if take 9 s = str ''-Infinity'' then Scanned (JFloat (str ''-Infinity'')) (drop 9 s)
      else (case match_number s of
              None \<Rightarrow> Malformed
            | Some (v, r) \<Rightarrow> Scanned v r))"
| "parse_array 0 s acc = Exhausted"
| "parse_array (Suc n) s acc =
     (case scan_once n s of
        Scanned v r \<Rightarrow>
          if next_is RBRACKET (skip_ws r) then Scanned (JList (acc @ [v])) (tl (skip_ws r))
          else if next_is COMMA (skip_ws r)
          then parse_array n (skip_ws (tl (skip_ws r))) (acc @ [v])
          else Malformed
      | Malformed \<Rightarrow> Malformed
      | Exhausted \<Rightarrow> Exhausted)"
| "parse_object 0 s acc = Exhausted"
| "parse_object (Suc n) s acc =
     (if \<not> next_is QUOTE s then Malformed
      else
        (case scanstring (tl s) of
           None \<Rightarrow> Malformed
         | Some (key, r) \<Rightarrow>
             if \<not> next_is COLON (skip_ws r) then Malformed
             else
               (case scan_once n (skip_ws (tl (skip_ws r))) of
                  Scanned v r2 \<Rightarrow>
                    if next_is RBRACE (skip_ws r2)
                    then Scanned (JDict (dict_set key v acc)) (tl (skip_ws r2))
                    else if next_is COMMA (skip_ws r2)
                    then parse_object n (skip_ws (tl (skip_ws r2))) (dict_set key v acc)
                    else Malformed
                | Malformed \<Rightarrow> Malformed
                | Exhausted \<Rightarrow> Exhausted)))"

text \<open>
  \<^verbatim>\<open>json.loads(s)\<close>: a text starting with a byte order mark is refused; white space is
  skipped before and after the one value; anything left over is an error. Every error of
  the text is a \<^verbatim>\<open>JSONDecodeError\<close>. Reaching the bound on nesting is Python's
  \<^verbatim>\<open>RecursionError\<close>; the bound given here is one more than twice the length of the text, which
  is never reached (\<open>json_loads_bound\<close> below): the interpreter's own recursion limit is not
  modelled, nor is its limit on the digits of an int.
\<close>

definition json_loads :: "ustr \<Rightarrow> exn + json" where
  "json_loads s =
     (if next_is 65279 s then Inl JSONDecodeError
      else
        (case scan_once (Suc (2 * length s)) (skip_ws s) of
           Scanned v r \<Rightarrow> if skip_ws r = [] then Inr v else Inl JSONDecodeError
         | Malformed \<Rightarrow> Inl JSONDecodeError
         | Exhausted \<Rightarrow> Inl RecursionError))"

section \<open>The world outside the program\<close>

text \<open>
  What \<^verbatim>\<open>requests.post\<close> is called with: the URL, the headers, the \<^verbatim>\<open>json=\<close> body and the
  \<^verbatim>\<open>timeout=\<close> argument in seconds, \<open>None\<close> when the call gives none (the library then
  waits without limit).
\<close>

record request =
  url :: ustr
  headers :: "(ustr \<times> ustr) list"
  data :: json
  timeout :: "nat option"

text \<open>
  What the call gives back: a response object with its \<^verbatim>\<open>status_code\<close>, its \<^verbatim>\<open>text\<close> (the
  field \<open>body\<close>) and what its \<^verbatim>\<open>json()\<close> method returns or raises; or an exception. The
  environment chooses the three independently, as a test double would.
\<close>

record response =
  status_code :: int
  body :: ustr
  json_result :: "exn + json"

datatype post_outcome = Responded response | Raised exn

text \<open>
  The environment answers the \<open>k\<close>-th call of the run (\<open>k\<close> counts from 0) to a request, and
  gives the text \<^verbatim>\<open>str(e)\<close> of an exception. The state of a run is the list of the calls
  made so far, oldest first.
\<close>

record env =
  respond :: "nat \<Rightarrow> request \<Rightarrow> post_outcome"
  exc_str :: "exn \<Rightarrow> ustr"

definition post :: "env \<Rightarrow> request list \<Rightarrow> request \<Rightarrow> post_outcome \<times> request list" where
  "post e calls req = (respond e (length calls) req, calls @ [req])"


section \<open>Python operations on decoded values\<close>

text \<open>
  \<^verbatim>\<open>v[k]\<close> with a string \<open>k\<close>, and \<^verbatim>\<open>v[i]\<close> with a non-negative integer \<open>i\<close>. The keys of a
  decoded dict are strings, so an integer is never one of them.
\<close>

definition getitem_key :: "json \<Rightarrow> ustr \<Rightarrow> exn + json" where
  "getitem_key v k =
     (case v of
        JDict kvs \<Rightarrow> (case map_of kvs k of None \<Rightarrow> Inl KeyError | Some x \<Rightarrow> Inr x)
      | _ \<Rightarrow> Inl TypeError)"

definition getitem_index :: "json \<Rightarrow> nat \<Rightarrow> exn + json" where
  "getitem_index v i =
     (case v of
        JList xs \<Rightarrow> if i < length xs then Inr (xs ! i) else Inl IndexError
      | JStr s \<Rightarrow> if i < length s then Inr (JStr [s ! i]) else Inl IndexError
      | JDict kvs \<Rightarrow> Inl KeyError
      | _ \<Rightarrow> Inl TypeError)"

text \<open>
  \<^verbatim>\<open>k in v\<close> with a string \<open>k\<close>: a key of a dict, an element of a list, a substring of a
  string; any other value is not iterable.
\<close>

definition py_in :: "ustr \<Rightarrow> json \<Rightarrow> exn + bool" where
  "py_in k v =
     (case v of
        JDict kvs \<Rightarrow> Inr (k \<in> set (map fst kvs))
      | JList xs \<Rightarrow> Inr (JStr k \<in> set xs)
      | JStr s \<Rightarrow> Inr (contains k s)
      | _ \<Rightarrow> Inl TypeError)"

text \<open>\<^verbatim>\<open>v.get(k)\<close>: only a dict has the method.\<close>

definition py_get :: "json \<Rightarrow> ustr \<Rightarrow> exn + json" where
  "py_get v k =
     (case v of
        JDict kvs \<Rightarrow> Inr (case map_of kvs k of None \<Rightarrow> JNull | Some x \<Rightarrow> x)
      | _ \<Rightarrow> Inl AttributeError)"

section \<open>What the two variants share\<close>

definition MODEL :: ustr where
  "MODEL = str ''meta-llama/Llama-3-70b-chat-hf''"

text \<open>The f-string of the prompt, up to the line of the note (the same text in both files).\<close>

definition prompt_top :: ustr where
  "prompt_top =
     [10] @
     str ''You are a language assistant. I will provide an English word. Your task is to:'' @ [10] @
     [10] @
     str ''1. Convert the English word into its correct pronunciation in English in USA style (like Toilet: '' @ [39] @ str ''TOy Luht'' @ [39] @ str '').'' @ [10] @
     str ''2. Convert that pronunciation into a Telugu representation of the sounds.'' @ [10] @
     [10] @
     str ''Respond in JSON format as shown in the example.'' @ [10] @
     [10] @
     str ''Example input: '' @ [39] @ str ''toilet'' @ [39, 10] @
     str ''Example output:'' @ [10] @
     str ''{'' @ [10] @
     str ''  '' @ [34] @ str ''word'' @ [34] @ str '': '' @ [34] @ str ''toilet'' @ [34] @ str '','' @ [10] @
     str ''  '' @ [34] @ str ''pronunciation'' @ [34] @ str '': '' @ [34] @ str ''TOy Luht'' @ [34] @ str '','' @ [10] @
     str ''  '' @ [34] @ str ''pronunciation_telugu'' @ [34] @ str '': '' @ [34, 3103, 3134, 3119, 3149] @ str '' '' @ [3122, 3129, 3149, 3103, 3149, 34, 10] @
     str ''}'' @ [10] @
     [10]"

definition note_line :: ustr where
  "note_line = str ''Note: Do not include any additional text or explanations, only the JSON object. Do not include any markdown formatting. Ensure the Telugu representation captures the phonetic sounds accurately.'' @ [10]"

definition prompt_bottom :: "ustr \<Rightarrow> ustr" where
  "prompt_bottom word = str ''Now process the following word: '' @ [39] @ word @ [39, 10]"

definition endpoint :: ustr where
  "endpoint = str ''https://api.together.xyz/completions''"

definition headers_of :: "ustr \<Rightarrow> (ustr \<times> ustr) list" where
  "headers_of api_key =
     [(str ''Authorization'', str ''Bearer '' @ api_key),
      (str ''Content-Type'', str ''application/json'')]"

definition data_of :: "ustr \<Rightarrow> json" where
  "data_of prompt =
     JDict [(str ''model'', JStr MODEL),
            (str ''prompt'', JStr prompt),
            (str ''max_tokens'', JInt 200),
            (str ''temperature'', JInt 0)]"

text \<open>\<^verbatim>\<open>result["choices"][0]["text"]\<close>.\<close>

definition output_text_of :: "json \<Rightarrow> exn + json" where
  "output_text_of result =
     (case getitem_key result (str ''choices'') of
        Inl e \<Rightarrow> Inl e
      | Inr choices \<Rightarrow>
          (case getitem_index choices 0 of
             Inl e \<Rightarrow> Inl e
           | Inr choice \<Rightarrow> getitem_key choice (str ''text'')))"

text \<open>\<^verbatim>\<open>output_text.strip().strip("```").strip()\<close>.\<close>

definition cleaned_text :: "ustr \<Rightarrow> ustr" where
  "cleaned_text output_text =
     strip (strip_chars [BACKTICK, BACKTICK, BACKTICK] (strip output_text))"

section \<open>The batch variant (get_accent_word.py)\<close>

text \<open>The prompt of this file has the note line with a doubled first letter.\<close>

definition prompt_batch :: "ustr \<Rightarrow> ustr" where
  "prompt_batch word = prompt_top @ [78] @ note_line @ prompt_bottom word"

text \<open>\<^verbatim>\<open>requests.post(url, headers=headers, json=data)\<close>: no \<^verbatim>\<open>timeout\<close> argument.\<close>

definition request_batch :: "ustr \<Rightarrow> ustr \<Rightarrow> request" where
  "request_batch api_key word =
     \<lparr>url = endpoint, headers = headers_of api_key,
      data = data_of (prompt_batch word), timeout = None\<rparr>"

text \<open>
  \<^verbatim>\<open>get_pronunciation(word)\<close>. The only \<^verbatim>\<open>try\<close> of the function is around \<^verbatim>\<open>json.loads\<close> and
  catches \<^verbatim>\<open>json.JSONDecodeError\<close>; every other exception leaves the function (\<open>Inl\<close>).
\<close>

definition get_pronunciation_batch ::
  "env \<Rightarrow> ustr \<Rightarrow> request list \<Rightarrow> ustr \<Rightarrow> (exn + json) \<times> request list" where
  "get_pronunciation_batch e api_key calls word =
     (case post e calls (request_batch api_key word) of
        (Raised x, calls') \<Rightarrow> (Inl x, calls')
      | (Responded response, calls') \<Rightarrow>
          (if status_code response = 200 then
             (case json_result response of
                Inl x \<Rightarrow> Inl x
              | Inr result \<Rightarrow>
                  (case output_text_of result of
                     Inl x \<Rightarrow> Inl x
                   | Inr (JStr output_text) \<Rightarrow>
                       (case json_loads (cleaned_text output_text) of
                          Inr parsed \<Rightarrow> Inr parsed
                        | Inl JSONDecodeError \<Rightarrow>
                            Inr (JDict [(str ''error'', JStr (str ''Failed to parse JSON from LLM output'')),
                                        (str ''raw_output'', JStr output_text)])
                        | Inl x \<Rightarrow> Inl x)
                   | Inr _ \<Rightarrow> Inl AttributeError))
           else
             Inr (JDict [(str ''error'',
                            JStr (str ''API request failed with status '' @
                                  str_of_int (status_code response))),
                         (str ''details'', JStr (body response))]),
           calls'))"




section \<open>The interactive variant (streamlit_app.py)\<close>

text \<open>
  The calls of the logger are left out, apart from the one whose argument can raise (in the
  loop of the form): a logging call itself does not raise.
\<close>

definition prompt_app :: "ustr \<Rightarrow> ustr" where
  "prompt_app word = prompt_top @ note_line @ prompt_bottom word"

text \<open>\<^verbatim>\<open>requests.post(url, headers=headers, json=data, timeout=30)\<close>.\<close>

definition request_app :: "ustr \<Rightarrow> ustr \<Rightarrow> request" where
  "request_app api_key word =
     \<lparr>url = endpoint, headers = headers_of api_key,
      data = data_of (prompt_app word), timeout = Some 30\<rparr>"

text \<open>
  The body of the outer \<^verbatim>\<open>try\<close> of \<^verbatim>\<open>get_pronunciation(word)\<close>, from the response on: what it
  returns, or the exception that reaches the \<^verbatim>\<open>except\<close> clauses.
\<close>

definition attempt :: "ustr \<Rightarrow> post_outcome \<Rightarrow> exn + json" where
  "attempt word outcome =
     (case outcome of
        Raised x \<Rightarrow> Inl x
      | Responded response \<Rightarrow>
          (if status_code response = 200 then
             (case json_result response of
                Inl x \<Rightarrow> Inl x
              | Inr result \<Rightarrow>
                  (case output_text_of result of
                     Inl x \<Rightarrow> Inl x
                   | Inr (JStr output_text) \<Rightarrow>
                       (case json_loads (cleaned_text output_text) of
                          Inr parsed_json \<Rightarrow> Inr parsed_json
                        | Inl JSONDecodeError \<Rightarrow>
                            Inr (JDict [(str ''error'', JStr (str ''Failed to parse JSON from LLM output'')),
                                        (str ''raw_output'', JStr output_text),
                                        (str ''word'', JStr word)])
                        | Inl x \<Rightarrow> Inl x)
                   | Inr _ \<Rightarrow> Inl AttributeError))
           else
             Inr (JDict [(str ''error'',
                            JStr (str ''API request failed with status '' @
                                  str_of_int (status_code response))),
                         (str ''details'', JStr (body response)),
                         (str ''word'', JStr word)])))"

text \<open>
  \<^verbatim>\<open>get_pronunciation(word)\<close> with its three \<^verbatim>\<open>except\<close> clauses, in the order of the source:
  \<^verbatim>\<open>Timeout\<close>, \<^verbatim>\<open>ConnectionError\<close>, \<^verbatim>\<open>Exception\<close>.
\<close>

definition get_pronunciation_app ::
  "env \<Rightarrow> ustr \<Rightarrow> request list \<Rightarrow> ustr \<Rightarrow> (exn + json) \<times> request list" where
  "get_pronunciation_app e api_key calls word =
     (case post e calls (request_app api_key word) of
        (outcome, calls') \<Rightarrow>
          ((case attempt word outcome of
              Inr v \<Rightarrow> Inr v
            | Inl (RequestsTimeout m) \<Rightarrow>
                Inr (JDict [(str ''error'', JStr (str ''Request timeout'')),
                            (str ''word'', JStr word)])
            | Inl (RequestsConnectionError m) \<Rightarrow>
                Inr (JDict [(str ''error'', JStr (str ''Connection error'')),
                            (str ''details'', JStr (exc_str e (RequestsConnectionError m))),
                            (str ''word'', JStr word)])
            | Inl x \<Rightarrow>
                Inr (JDict [(str ''error'', JStr (str ''Unexpected error'')),
                            (str ''details'', JStr (exc_str e x)),
                            (str ''word'', JStr word)])),
           calls'))"

text \<open>
  The state of the loop of the form: \<^verbatim>\<open>all_outputs\<close>, \<^verbatim>\<open>successful_conversions\<close>,
  \<^verbatim>\<open>failed_conversions\<close>.
\<close>

record tally =
  all_outputs :: "json list"
  successful_conversions :: nat
  failed_conversions :: nat

text \<open>The \<^verbatim>\<open>except Exception\<close> clause of the loop.\<close>

definition critical :: "env \<Rightarrow> exn \<Rightarrow> ustr \<Rightarrow> tally \<Rightarrow> tally" where
  "critical e x w t =
     t\<lparr>all_outputs := all_outputs t @
          [JDict [(str ''error'', JStr (str ''Critical processing error'')),
                  (str ''details'', JStr (exc_str e x)),
                  (str ''word'', JStr w)]],
       failed_conversions := failed_conversions t + 1\<rparr>"

text \<open>
  One turn of the loop. The output is appended before \<^verbatim>\<open>"error" in output\<close> is evaluated, and
  the failure counter is incremented before the warning is formatted with
  \<^verbatim>\<open>output.get('error')\<close>; an exception raised by either goes to the \<^verbatim>\<open>except\<close> clause with
  what was done so far.
\<close>

definition process_word :: "env \<Rightarrow> ustr \<Rightarrow> ustr \<Rightarrow> tally \<times> request list \<Rightarrow> tally \<times> request list" where
  "process_word e api_key w st =
     (case get_pronunciation_app e api_key (snd st) w of
        (Inl x, calls') \<Rightarrow> (critical e x w (fst st), calls')
      | (Inr output, calls') \<Rightarrow>
          (let t1 = (fst st)\<lparr>all_outputs := all_outputs (fst st) @ [output]\<rparr>
           in case py_in (str ''error'') output of
                Inl x \<Rightarrow> (critical e x w t1, calls')
              | Inr True \<Rightarrow>
                  (let t2 = t1\<lparr>failed_conversions := failed_conversions t1 + 1\<rparr>
                   in case py_get output (str ''error'') of
                        Inl x \<Rightarrow> (critical e x w t2, calls')
                      | Inr _ \<Rightarrow> (t2, calls'))
              | Inr False \<Rightarrow>
                  (t1\<lparr>successful_conversions := successful_conversions t1 + 1\<rparr>, calls')))"

fun process_words :: "env \<Rightarrow> ustr \<Rightarrow> ustr list \<Rightarrow> tally \<times> request list \<Rightarrow> tally \<times> request list" where
  "process_words e api_key [] st = st"
| "process_words e api_key (w # ws) st = process_words e api_key ws (process_word e api_key w st)"

text \<open>\<^verbatim>\<open>[w.strip() for w in words_input.split(",") if w.strip()]\<close>.\<close>

definition words_of :: "ustr \<Rightarrow> ustr list" where
  "words_of words_input = map strip (filter (\<lambda>w. strip w \<noteq> []) (split COMMA words_input))"

text \<open>What the page shows, element by element, as far as the script decides it.\<close>

datatype element =
    St_error ustr
  | St_title ustr
  | St_write ustr
  | St_text_area ustr ustr
  | St_button ustr
  | St_warning ustr
  | St_subheader ustr
  | St_json "json list"
  | St_metric ustr nat
  | St_download_button ustr "json list"

text \<open>The branch of \<^verbatim>\<open>if st.button("Convert")\<close>.\<close>

definition convert :: "env \<Rightarrow> ustr \<Rightarrow> request list \<Rightarrow> ustr \<Rightarrow> element list \<times> request list" where
  "convert e api_key calls words_input =
     (if words_of words_input = []
      then ([St_warning (str ''Please enter at least one word.'')], calls)
      else
        (case process_words e api_key (words_of words_input)
                (\<lparr>all_outputs = [], successful_conversions = 0, failed_conversions = 0\<rparr>, calls) of
           (t, calls') \<Rightarrow>
             ([St_subheader (str ''Results''),
               St_json (all_outputs t),
               St_metric (str ''Total Words'') (length (words_of words_input)),
               St_metric (str ''Successful'') (successful_conversions t),
               St_metric (str ''Failed'') (failed_conversions t),
               St_download_button (str ''Download JSON'') (all_outputs t)],
              calls')))"


section \<open>Shapes of the data model and sample environments\<close>

text \<open>
  The two shapes of the data model of the specification, for stating properties: a
  PronunciationResult has the three keys \<^verbatim>\<open>word\<close>, \<^verbatim>\<open>pronunciation\<close> and
  \<^verbatim>\<open>pronunciation_telugu\<close>, a PronunciationError has the key \<^verbatim>\<open>error\<close>, each holding a
  string.
\<close>

definition field :: "ustr \<Rightarrow> json \<Rightarrow> json option" where
  "field k v = (case v of JDict kvs \<Rightarrow> map_of kvs k | _ \<Rightarrow> None)"

definition holds_string :: "ustr \<Rightarrow> json \<Rightarrow> bool" where
  "holds_string k v = (case field k v of Some (JStr t) \<Rightarrow> True | _ \<Rightarrow> False)"

definition is_pronunciation_result :: "json \<Rightarrow> bool" where
  "is_pronunciation_result v \<longleftrightarrow>
     holds_string (str ''word'') v \<and> holds_string (str ''pronunciation'') v \<and>
     holds_string (str ''pronunciation_telugu'') v"

definition is_pronunciation_error :: "json \<Rightarrow> bool" where
  "is_pronunciation_error v \<longleftrightarrow> holds_string (str ''error'') v"

text \<open>
  The value decoded from the completion of a response, when the status is 200, the
  response carries a completion text and the cleaned text decodes: the one path on which
  either variant returns what the model wrote.
\<close>

definition parsed_completion :: "post_outcome \<Rightarrow> json option" where
  "parsed_completion outcome =
     (case outcome of
        Raised x \<Rightarrow> None
      | Responded r \<Rightarrow>
          if status_code r = 200 then
            (case json_result r of
               Inl x \<Rightarrow> None
             | Inr result \<Rightarrow>
                 (case output_text_of result of
                    Inr (JStr t) \<Rightarrow>
                      (case json_loads (cleaned_text t) of Inr v \<Rightarrow> Some v | Inl x \<Rightarrow> None)
                  | _ \<Rightarrow> None))
          else None)"

text \<open>\<open>completion_is r t\<close>: the response has status 200 and its completion text is \<open>t\<close>.\<close>

definition completion_is :: "response \<Rightarrow> ustr \<Rightarrow> bool" where
  "completion_is r t \<longleftrightarrow>
     status_code r = 200 \<and>
     (case json_result r of Inl x \<Rightarrow> False | Inr result \<Rightarrow> output_text_of result = Inr (JStr t))"

text \<open>A string with no white space and no backtick at either end.\<close>

definition clean :: "ustr \<Rightarrow> bool" where
  "clean s \<longleftrightarrow>
     s = [] \<or>
     (\<not> is_space (hd s) \<and> hd s \<noteq> BACKTICK \<and> \<not> is_space (last s) \<and> last s \<noteq> BACKTICK)"

text \<open>
  \<open>reads s r\<close>: \<open>r\<close> is what is left of \<open>s\<close> after a non-empty part of it that does not end in
  a backtick.
\<close>

definition reads :: "ustr \<Rightarrow> ustr \<Rightarrow> bool" where
  "reads s r \<longleftrightarrow> (\<exists>p. s = p @ r \<and> p \<noteq> [] \<and> last p \<noteq> BACKTICK)"

text \<open>
  Simulated environments: \<open>answering t\<close> answers every call with status 200 and the
  completion text \<open>t\<close>; \<open>refusing\<close> fails every call with a connection error.
\<close>

definition reply :: "ustr \<Rightarrow> response" where
  "reply t =
     \<lparr>status_code = 200, body = [],
      json_result = Inr (JDict [(str ''choices'', JList [JDict [(str ''text'', JStr t)]])])\<rparr>"

definition answering :: "ustr \<Rightarrow> env" where
  "answering t = \<lparr>respond = (\<lambda>k req. Responded (reply t)), exc_str = (\<lambda>x. str ''failed'')\<rparr>"

definition refusing :: env where
  "refusing =
     \<lparr>respond = (\<lambda>k req. Raised (RequestsConnectionError (str ''refused''))),
      exc_str = (\<lambda>x. str ''refused'')\<rparr>"



text \<open>The JSON text of a list holding the one string \<^verbatim>\<open>error\<close>.\<close>

definition error_list :: ustr where
  "error_list = [91, 34] @ str ''error'' @ [34, 93]"

section \<open>The decoder reads forward and stays within its bound\<close>

lemma skip_ws_length: "length (skip_ws s) \<le> length s"
  by (simp add: skip_ws_def length_dropWhile_le)

lemma next_is_tl: "next_is c s \<Longrightarrow> length (tl s) < length s"
  by (cases s) (simp_all add: next_is_def)

lemma hex4_shorter: "hex4 s = Some (c, r) \<Longrightarrow> length r < length s"
  by (auto simp: hex4_def split: list.splits option.splits)

lemma unescape_shorter: "unescape s = Some (c, r) \<Longrightarrow> length r < length s"
  by (auto simp: unescape_def split: list.splits option.splits if_splits dest!: hex4_shorter)

lemma scanstring_shorter: "scanstring s = Some (v, r) \<Longrightarrow> length r < length s"
proof (induction s arbitrary: v r rule: scanstring.induct)
  case 1
  then show ?case by simp
next
  case (2 c cs)
  then show ?case
    by (fastforce split: if_splits option.splits dest: unescape_shorter)
qed

lemma int_part_pos: "s \<noteq> [] \<Longrightarrow> is_digit (hd s) \<Longrightarrow> 0 < length (int_part s)"
  by (cases s) (simp_all add: int_part_def)

lemma match_number_shorter: 
  assumes "match_number s = Some (v, r)" shows "length r < length s"
proof -
  define s1 where "s1 = (if next_is 45 s then tl s else s)"
  from assms have ne: "s1 \<noteq> []" and dg: "is_digit (hd s1)"
    unfolding match_number_def Let_def s1_def by (simp_all split: if_split_asm)
  have s1: "length s1 \<le> length s" by (simp add: s1_def)
  from ne have pos: "0 < length s1" by simp
  from assms ne dg have "length r \<le> length s1 - length (int_part s1)"
    unfolding match_number_def Let_def s1_def [symmetric] by (auto split: if_split_asm)
  with int_part_pos [OF ne dg] s1 pos show ?thesis by linarith
qed

lemma after_sep: "next_is c (skip_ws r) \<Longrightarrow> length (skip_ws (tl (skip_ws r))) < length r"
  using skip_ws_length [of r] skip_ws_length [of "tl (skip_ws r)"] next_is_tl [of c "skip_ws r"]
  by linarith

lemma after_close: "next_is c (skip_ws r) \<Longrightarrow> length (tl (skip_ws r)) < length r"
  using skip_ws_length [of r] next_is_tl [of c "skip_ws r"] by linarith

lemma scanned_shorter:
  "scan_once n s = Scanned v r \<Longrightarrow> length r < length s"
  "parse_array n s acc = Scanned v r \<Longrightarrow> length r < length s"
  "parse_object n s kvs = Scanned v r \<Longrightarrow> length r < length s"
proof (induction n s and n s acc and n s kvs arbitrary: v r and v r and v r
       rule: scan_once_parse_array_parse_object.induct)
  case (1 s)
  then show ?case by simp
next
  case (2 n s)
  from "2.prems" have ne: "s \<noteq> []" by (auto split: if_split_asm)
  then have tl: "length (tl s) < length s" by simp
  show ?case
  proof (cases "hd s = QUOTE")
    case True
    with "2.prems" ne obtain x where "scanstring (tl s) = Some (x, r)"
      by (auto split: option.splits)
    from scanstring_shorter [OF this] tl show ?thesis by simp
  next
    case nq: False
    show ?thesis
    proof (cases "hd s = LBRACE")
      case True
      show ?thesis
      proof (cases "next_is RBRACE (skip_ws (tl s))")
        case c: True
        with "2.prems" ne True have "r = tl (skip_ws (tl s))" by simp
        with after_close [OF c] tl show ?thesis by simp
      next
        case c: False
        with "2.prems" ne True have "parse_object n (skip_ws (tl s)) [] = Scanned v r" by simp
        from "2.IH"(1) [OF ne nq True c this] skip_ws_length [of "tl s"] tl
        show ?thesis by simp
      qed
    next
      case nb: False
      show ?thesis
      proof (cases "hd s = LBRACKET")
        case True
        show ?thesis
        proof (cases "next_is RBRACKET (skip_ws (tl s))")
          case c: True
          with "2.prems" ne nq nb True have "r = tl (skip_ws (tl s))" by simp
          with after_close [OF c] tl show ?thesis by simp
        next
          case c: False
          with "2.prems" ne nq nb True have "parse_array n (skip_ws (tl s)) [] = Scanned v r" by simp
          from "2.IH"(2) [OF ne nq nb True c this] skip_ws_length [of "tl s"] tl
          show ?thesis by simp
        qed
      next
        case False
        with "2.prems" ne nq nb show ?thesis
          by (auto split: if_split_asm option.splits dest: match_number_shorter)
      qed
    qed
  qed
next
  case (3 s acc)
  then show ?case by simp
next
  case (4 n s acc)
  from "4.prems" obtain v' r' where s: "scan_once n s = Scanned v' r'"
    by (auto split: scanned.splits)
  from "4.IH"(1) [OF s] have r': "length r' < length s" .
  show ?case
  proof (cases "next_is RBRACKET (skip_ws r')")
    case True
    with "4.prems" s have "r = tl (skip_ws r')" by simp
    with after_close [OF True] r' show ?thesis by simp
  next
    case False
    with "4.prems" s have c: "next_is COMMA (skip_ws r')"
      and p: "parse_array n (skip_ws (tl (skip_ws r'))) (acc @ [v']) = Scanned v r"
      by (auto split: if_split_asm)
    from "4.IH"(2) [OF s False c p] after_sep [OF c] r' show ?thesis by simp
  qed
next
  case (5 s acc)
  then show ?case by simp
next
  case (6 n s acc)
  from "6.prems" have q: "next_is QUOTE s" by (auto split: if_split_asm)
  with "6.prems" obtain key r1 where k: "scanstring (tl s) = Some (key, r1)"
    by (auto split: option.splits)
  from scanstring_shorter [OF k] next_is_tl [OF q] have r1: "length r1 < length s" by simp
  from "6.prems" q k have col: "next_is COLON (skip_ws r1)" by (auto split: if_split_asm)
  with "6.prems" q k obtain v' r2 where s: "scan_once n (skip_ws (tl (skip_ws r1))) = Scanned v' r2"
    by (auto split: scanned.splits)
  have q': "\<not> \<not> next_is QUOTE s" using q by simp
  have col': "\<not> \<not> next_is COLON (skip_ws r1)" using col by simp
  from "6.IH"(1) [OF q' k refl col' s] after_sep [OF col] r1
  have r2: "length r2 < length s" by simp
  show ?case
  proof (cases "next_is RBRACE (skip_ws r2)")
    case True
    with "6.prems" q k col s have "r = tl (skip_ws r2)" by simp
    with after_close [OF True] r2 show ?thesis by simp
  next
    case False
    with "6.prems" q k col s have c: "next_is COMMA (skip_ws r2)"
      and p: "parse_object n (skip_ws (tl (skip_ws r2))) (dict_set key v' acc) = Scanned v r"
      by (auto split: if_split_asm)
    from "6.IH"(2) [OF q' k refl col' s False c p] after_sep [OF c] r2
    show ?thesis by simp
  qed
qed

lemma never_exhausted:
  "2 * length s < n \<Longrightarrow> scan_once n s \<noteq> Exhausted"
  "2 * length s + 1 < n \<Longrightarrow> parse_array n s acc \<noteq> Exhausted"
  "2 * length s + 1 < n \<Longrightarrow> parse_object n s kvs \<noteq> Exhausted"
proof (induction n s and n s acc and n s kvs
       rule: scan_once_parse_array_parse_object.induct)
  case (1 s)
  then show ?case by simp
next
  case (2 n s)
  show ?case
  proof (cases "s = []")
    case True
    then show ?thesis by simp
  next
    case ne: False
    then have tl: "length (tl s) < length s" by simp
    have inner: "2 * length (skip_ws (tl s)) + 1 < n"
      using "2.prems" tl skip_ws_length [of "tl s"] by linarith
    show ?thesis
    proof (cases "hd s = QUOTE")
      case True
      with ne show ?thesis by (simp split: option.splits)
    next
      case nq: False
      show ?thesis
      proof (cases "hd s = LBRACE")
        case True
        show ?thesis
        proof (cases "next_is RBRACE (skip_ws (tl s))")
          case c: True
          with ne True show ?thesis by simp
        next
          case c: False
          from "2.IH"(1) [OF ne nq True c inner] ne True c show ?thesis by simp
        qed
      next
        case nb: False
        show ?thesis
        proof (cases "hd s = LBRACKET")
          case True
          show ?thesis
          proof (cases "next_is RBRACKET (skip_ws (tl s))")
            case c: True
            with ne nq nb True show ?thesis by simp
          next
            case c: False
            from "2.IH"(2) [OF ne nq nb True c inner] ne nq nb True c show ?thesis by simp
          qed
        next
          case False
          with ne nq nb show ?thesis by (simp split: option.splits)
        qed
      qed
    qed
  qed
next
  case (3 s acc)
  then show ?case by simp
next
  case (4 n s acc)
  from "4.prems" have "2 * length s < n" by simp
  from "4.IH"(1) [OF this] have ne: "scan_once n s \<noteq> Exhausted" .
  show ?case
  proof (cases "scan_once n s")
    case (Scanned v' r')
    from scanned_shorter(1) [OF Scanned] have r': "length r' < length s" .
    show ?thesis
    proof (cases "next_is RBRACKET (skip_ws r')")
      case True
      with Scanned show ?thesis by simp
    next
      case nc: False
      show ?thesis
      proof (cases "next_is COMMA (skip_ws r')")
        case True
        have "2 * length (skip_ws (tl (skip_ws r'))) + 1 < n"
          using after_sep [OF True] r' "4.prems" by linarith
        from "4.IH"(2) [OF Scanned nc True this] Scanned nc True show ?thesis by simp
      next
        case False
        with Scanned nc show ?thesis by simp
      qed
    qed
  next
    case Malformed
    then show ?thesis by simp
  next
    case Exhausted
    with ne show ?thesis by simp
  qed
next
  case (5 s acc)
  then show ?case by simp
next
  case (6 n s acc)
  show ?case
  proof (cases "next_is QUOTE s")
    case False
    then show ?thesis by simp
  next
    case q: True
    then have q': "\<not> \<not> next_is QUOTE s" by simp
    show ?thesis
    proof (cases "scanstring (tl s)")
      case None
      with q show ?thesis by simp
    next
      case (Some kr)
      obtain key r1 where kr: "kr = (key, r1)" by (cases kr)
      from Some kr have k: "scanstring (tl s) = Some (key, r1)" by simp
      from scanstring_shorter [OF k] next_is_tl [OF q] have r1: "length r1 < length s" by simp
      show ?thesis
      proof (cases "next_is COLON (skip_ws r1)")
        case False
        with q k show ?thesis by simp
      next
        case col: True
        then have col': "\<not> \<not> next_is COLON (skip_ws r1)" by simp
        have "2 * length (skip_ws (tl (skip_ws r1))) < n"
          using after_sep [OF col] r1 "6.prems" by linarith
        from "6.IH"(1) [OF q' k refl col' this]
        have ne: "scan_once n (skip_ws (tl (skip_ws r1))) \<noteq> Exhausted" .
        show ?thesis
        proof (cases "scan_once n (skip_ws (tl (skip_ws r1)))")
          case (Scanned v' r2)
          from scanned_shorter(1) [OF Scanned] after_sep [OF col] r1
          have r2: "length r2 < length s" by simp
          show ?thesis
          proof (cases "next_is RBRACE (skip_ws r2)")
            case True
            with q k col Scanned show ?thesis by simp
          next
            case nc: False
            show ?thesis
            proof (cases "next_is COMMA (skip_ws r2)")
              case True
              have "2 * length (skip_ws (tl (skip_ws r2))) + 1 < n"
                using after_sep [OF True] r2 "6.prems" by linarith
              from "6.IH"(2) [OF q' k refl col' Scanned nc True this] q k col Scanned nc True
              show ?thesis by simp
            next
              case False
              with q k col Scanned nc show ?thesis by simp
            qed
          qed
        next
          case Malformed
          with q k col show ?thesis by simp
        next
          case Exhausted
          with ne show ?thesis by simp
        qed
      qed
    qed
  qed
qed

lemma json_loads_bound: "json_loads s \<noteq> Inl RecursionError"
proof -
  have "2 * length (skip_ws s) < Suc (2 * length s)"
    using skip_ws_length [of s] by linarith
  then have ne: "scan_once (Suc (2 * length s)) (skip_ws s) \<noteq> Exhausted"
    by (rule never_exhausted(1))
  show ?thesis
  proof (cases "scan_once (Suc (2 * length s)) (skip_ws s)")
    case (Scanned v r)
    then show ?thesis by (simp add: json_loads_def del: scan_once.simps)
  next
    case Malformed
    then show ?thesis by (simp add: json_loads_def del: scan_once.simps)
  next
    case Exhausted
    with ne show ?thesis by simp
  qed
qed

lemma json_loads_Inl:
  assumes "json_loads s = Inl x"
  shows "x = JSONDecodeError"
proof -
  from assms have "x = JSONDecodeError \<or> x = RecursionError"
    unfolding json_loads_def
    by (cases "scan_once (Suc (2 * length s)) (skip_ws s)")
       (auto simp del: scan_once.simps split: if_split_asm)
  with assms json_loads_bound [of s] show ?thesis by auto
qed

text \<open>
  What a successful scan has read: a non-empty part of the text, which neither starts nor
  ends with a backtick.
\<close>

lemma readsI: "s = p @ r \<Longrightarrow> p \<noteq> [] \<Longrightarrow> last p \<noteq> BACKTICK \<Longrightarrow> reads s r"
  by (auto simp: reads_def)

lemma reads_append: "reads s r \<Longrightarrow> reads (q @ s) r"
proof -
  assume "reads s r"
  then obtain p where p: "s = p @ r" "p \<noteq> []" "last p \<noteq> BACKTICK" by (auto simp: reads_def)
  then have "q @ s = (q @ p) @ r" "q @ p \<noteq> []" "last (q @ p) \<noteq> BACKTICK" by simp_all
  then show ?thesis by (rule readsI)
qed

lemma skip_ws_suffix: "\<exists>q. s = q @ skip_ws s"
  unfolding skip_ws_def by (metis takeWhile_dropWhile_id)

lemma tl_suffix: "s \<noteq> [] \<Longrightarrow> s = [hd s] @ tl s"
  by simp

lemma reads_skip_ws: "reads (skip_ws s) r \<Longrightarrow> reads s r"
  using skip_ws_suffix [of s] reads_append by metis

lemma reads_tl: "reads (tl s) r \<Longrightarrow> reads s r"
  by (cases s) (auto simp: reads_def intro: reads_append [of _ _ "[hd s]", simplified])

lemma reads_closing:
  assumes "next_is c (skip_ws s)" "c \<noteq> BACKTICK"
  shows "reads s (tl (skip_ws s))"
proof -
  obtain q where q: "s = q @ skip_ws s" using skip_ws_suffix by blast
  from assms(1) have "skip_ws s = c # tl (skip_ws s)"
    by (cases "skip_ws s") (simp_all add: next_is_def)
  with q have "s = (q @ [c]) @ tl (skip_ws s)" by simp
  moreover have "q @ [c] \<noteq> []" "last (q @ [c]) \<noteq> BACKTICK" using assms(2) by simp_all
  ultimately show ?thesis by (rule readsI)
qed

lemma hex4_suffix: "hex4 s = Some (c, r) \<Longrightarrow> \<exists>p. s = p @ r"
  by (auto simp: hex4_def split: list.splits option.splits)

lemma unescape_suffix: "unescape s = Some (c, r) \<Longrightarrow> \<exists>p. s = p @ r"
proof -
  assume a: "unescape s = Some (c, r)"
  then obtain e t where s: "s = e # t" by (cases s) (auto simp: unescape_def)
  have d: "\<exists>p. t = p @ drop 2 t" by (metis append_take_drop_id)
  from a s have "r = t \<or> (\<exists>c1. hex4 t = Some (c1, r)) \<or>
        (\<exists>c1 r1 c2. hex4 t = Some (c1, r1) \<and> hex4 (drop 2 r1) = Some (c2, r))"
    by (auto simp: unescape_def split: option.splits if_split_asm)
  then show ?thesis
  proof (elim disjE exE conjE)
    assume "r = t" with s show ?thesis by (intro exI [of _ "[e]"]) simp
  next
    fix c1 assume "hex4 t = Some (c1, r)"
    from hex4_suffix [OF this] s show ?thesis by (metis append_Cons)
  next
    fix c1 r1 c2 assume h: "hex4 t = Some (c1, r1)" "hex4 (drop 2 r1) = Some (c2, r)"
    from hex4_suffix [OF h(1)] obtain p1 where "t = p1 @ r1" ..
    moreover from hex4_suffix [OF h(2)] obtain p2 where "drop 2 r1 = p2 @ r" ..
    moreover have "r1 = take 2 r1 @ drop 2 r1" by simp
    ultimately have "s = (e # p1 @ take 2 r1 @ p2) @ r" using s by simp
    then show ?thesis ..
  qed
qed

lemma scanstring_suffix: "scanstring s = Some (v, r) \<Longrightarrow> \<exists>p. s = p @ QUOTE # r"
proof (induction s arbitrary: v r rule: scanstring.induct)
  case 1
  then show ?case by simp
next
  case (2 c cs)
  show ?case
  proof (cases "c = QUOTE")
    case True
    with "2.prems" have "r = cs" by simp
    with True show ?thesis by (intro exI [of _ "[]"]) simp
  next
    case nq: False
    show ?thesis
    proof (cases "c = BACKSLASH")
      case True
      with "2.prems" nq obtain ch r1 v1 where u: "unescape cs = Some (ch, r1)"
        and s: "scanstring r1 = Some (v1, r)"
        by (auto split: option.splits)
      from "2.IH"(1) [OF nq True u refl s] obtain p where "r1 = p @ QUOTE # r" ..
      moreover from unescape_suffix [OF u] obtain q where "cs = q @ r1" ..
      ultimately have "c # cs = (c # q @ p) @ QUOTE # r" by simp
      then show ?thesis ..
    next
      case False
      with "2.prems" nq obtain v1 where c: "\<not> c \<le> 31" and s: "scanstring cs = Some (v1, r)"
        by (auto split: option.splits if_split_asm)
      from "2.IH"(2) [OF nq False c s] obtain p where "cs = p @ QUOTE # r" ..
      then have "c # cs = (c # p) @ QUOTE # r" by simp
      then show ?thesis ..
    qed
  qed
qed


lemma last_digits: "xs \<noteq> [] \<Longrightarrow> \<forall>x \<in> set xs. is_digit x \<Longrightarrow> is_digit (last xs)"
  by simp

lemma takeWhile_prefix: "xs = takeWhile p xs @ drop (length (takeWhile p xs)) xs"
  by (metis dropWhile_eq_drop takeWhile_dropWhile_id)

lemma takeWhile_digits: "takeWhile is_digit xs \<noteq> [] \<Longrightarrow> is_digit (last (takeWhile is_digit xs))"
  by (rule last_digits) (auto dest: set_takeWhileD)

lemma int_part_prefix:
  assumes "s \<noteq> []" "is_digit (hd s)"
  shows "s = int_part s @ drop (length (int_part s)) s \<and> int_part s \<noteq> [] \<and>
         is_digit (last (int_part s))"
proof (cases "hd s = 48")
  case True
  with assms show ?thesis by (cases s) (simp_all add: int_part_def is_digit_def)
next
  case False
  from assms have ne: "takeWhile is_digit s \<noteq> []" by (cases s) simp_all
  with False takeWhile_prefix [of s is_digit] takeWhile_digits [OF ne]
  show ?thesis by (simp add: int_part_def)
qed

lemma frac_part_prefix:
  "s = frac_part s @ drop (length (frac_part s)) s \<and>
   (frac_part s \<noteq> [] \<longrightarrow> is_digit (last (frac_part s)))"
proof (cases "next_is 46 s \<and> tl s \<noteq> [] \<and> is_digit (hd (tl s))")
  case False
  then have "frac_part s = []" unfolding frac_part_def by (rule if_not_P)
  then show ?thesis by simp
next
  case True
  then obtain t where s: "s = 46 # t" and t: "t \<noteq> []" "is_digit (hd t)"
    by (cases s) (auto simp: next_is_def)
  from t have ne: "takeWhile is_digit t \<noteq> []" by (cases t) simp_all
  have fp: "frac_part (46 # t) = 46 # takeWhile is_digit t"
    using True s by (simp add: frac_part_def)
  show ?thesis
    using takeWhile_prefix [of t is_digit] takeWhile_digits [OF ne] ne
    by (simp add: fp s)
qed

lemma exp_part_prefix:
  "s = exp_part s @ drop (length (exp_part s)) s \<and>
   (exp_part s \<noteq> [] \<longrightarrow> is_digit (last (exp_part s)))"
proof -
  define sg where "sg = (if next_is 101 s \<or> next_is 69 s
                then (if next_is 43 (tl s) \<or> next_is 45 (tl s) then take 2 s else take 1 s)
                else [])"
  define ed where "ed = takeWhile is_digit (drop (length sg) s)"
  have ep: "exp_part s = (if sg \<noteq> [] \<and> ed \<noteq> [] then sg @ ed else [])"
    by (simp add: exp_part_def Let_def sg_def ed_def)
  have "\<exists>k. sg = take k s" by (auto simp: sg_def intro: exI [of _ 0])
  then obtain k where k: "sg = take k s" ..
  then have 1: "s = sg @ drop (length sg) s" by (metis append_take_drop_id length_take min_def drop_all le_refl append_Nil2 take_all)
  have 2: "drop (length sg) s = ed @ drop (length ed) (drop (length sg) s)"
    unfolding ed_def by (rule takeWhile_prefix)
  show ?thesis
  proof (cases "sg \<noteq> [] \<and> ed \<noteq> []")
    case False
    with ep show ?thesis by auto
  next
    case True
    from True have l: "is_digit (last ed)" unfolding ed_def by (intro takeWhile_digits) simp
    from 1 2 have "s = (sg @ ed) @ drop (length (sg @ ed)) s"
      by (metis append.assoc drop_drop length_append add.commute)
    with True ep l show ?thesis by simp
  qed
qed

lemma match_number_reads:
  assumes "match_number s = Some (v, r)"
  shows "\<exists>p. s = p @ r \<and> p \<noteq> [] \<and> is_digit (last p)"
proof -
  define s1 where "s1 = (if next_is 45 s then tl s else s)"
  from assms have ne: "s1 \<noteq> []" and dg: "is_digit (hd s1)"
    unfolding match_number_def Let_def s1_def by (simp_all split: if_split_asm)
  define ip where "ip = int_part s1"
  define s2 where "s2 = drop (length ip) s1"
  define fp where "fp = frac_part s2"
  define s3 where "s3 = drop (length fp) s2"
  define ep where "ep = exp_part s3"
  from assms ne dg have r: "r = drop (length ep) s3"
    unfolding match_number_def Let_def s1_def [symmetric] ip_def [symmetric] s2_def [symmetric]
      fp_def [symmetric] s3_def [symmetric] ep_def [symmetric]
    by (auto split: if_split_asm)
  from int_part_prefix [OF ne dg] have i: "s1 = ip @ s2" "ip \<noteq> []" "is_digit (last ip)"
    by (simp_all add: ip_def s2_def)
  from frac_part_prefix [of s2] have f: "s2 = fp @ s3" "fp \<noteq> [] \<longrightarrow> is_digit (last fp)"
    by (simp_all add: fp_def s3_def)
  from exp_part_prefix [of s3] r have e: "s3 = ep @ r" "ep \<noteq> [] \<longrightarrow> is_digit (last ep)"
    by (simp_all add: ep_def)
  obtain sgn where sgn: "s = sgn @ s1"
    by (cases "next_is 45 s"; cases s) (auto simp: s1_def next_is_def intro: that [of "[]"] that [of "[45]"])
  from i f e sgn have "s = (sgn @ ip @ fp @ ep) @ r" by simp
  moreover have "sgn @ ip @ fp @ ep \<noteq> []" using i by simp
  moreover have "is_digit (last (sgn @ ip @ fp @ ep))"
    using i(2,3) f(2) e(2) by (cases "ep = []"; cases "fp = []") simp_all
  ultimately show ?thesis by blast
qed


lemma reads_then: "reads s t \<Longrightarrow> reads t r \<Longrightarrow> reads s r"
  by (metis reads_def reads_append)

lemma reads_literal:
  assumes "take k s = lit" "lit \<noteq> []" "last lit \<noteq> BACKTICK"
  shows "reads s (drop k s)"
proof -
  have "s = lit @ drop k s" using assms(1) by (metis append_take_drop_id)
  then show ?thesis using assms(2,3) by (rule readsI)
qed

lemma reads_after_sep:
  assumes "next_is c (skip_ws t)" "c \<noteq> BACKTICK" "reads (skip_ws (tl (skip_ws t))) r"
  shows "reads t r"
  using reads_then [OF reads_closing [OF assms(1,2)] reads_skip_ws [OF assms(3)]] .

lemma scanned_reads:
  "scan_once n s = Scanned v r \<Longrightarrow> reads s r"
  "parse_array n s acc = Scanned v r \<Longrightarrow> reads s r"
  "parse_object n s kvs = Scanned v r \<Longrightarrow> reads s r"
proof (induction n s and n s acc and n s kvs arbitrary: v r and v r and v r
       rule: scan_once_parse_array_parse_object.induct)
  case (1 s)
  then show ?case by simp
next
  case (2 n s)
  from "2.prems" have ne: "s \<noteq> []" by (auto split: if_split_asm)
  show ?case
  proof (cases "hd s = QUOTE")
    case True
    with "2.prems" ne obtain x where "scanstring (tl s) = Some (x, r)"
      by (auto split: option.splits)
    from scanstring_suffix [OF this] obtain p where "tl s = p @ QUOTE # r" ..
    with ne have "s = (hd s # p @ [QUOTE]) @ r" by (cases s) simp_all
    then show ?thesis by (rule readsI) simp_all
  next
    case nq: False
    show ?thesis
    proof (cases "hd s = LBRACE")
      case True
      show ?thesis
      proof (cases "next_is RBRACE (skip_ws (tl s))")
        case c: True
        with "2.prems" ne True have "r = tl (skip_ws (tl s))" by simp
        with reads_closing [OF c] show ?thesis by (simp add: reads_tl)
      next
        case c: False
        with "2.prems" ne True have "parse_object n (skip_ws (tl s)) [] = Scanned v r" by simp
        from "2.IH"(1) [OF ne nq True c this] show ?thesis
          by (rule reads_tl [OF reads_skip_ws])
      qed
    next
      case nb: False
      show ?thesis
      proof (cases "hd s = LBRACKET")
        case True
        show ?thesis
        proof (cases "next_is RBRACKET (skip_ws (tl s))")
          case c: True
          with "2.prems" ne nq nb True have "r = tl (skip_ws (tl s))" by simp
          with reads_closing [OF c] show ?thesis by (simp add: reads_tl)
        next
          case c: False
          with "2.prems" ne nq nb True have "parse_array n (skip_ws (tl s)) [] = Scanned v r" by simp
          from "2.IH"(2) [OF ne nq nb True c this] show ?thesis
            by (rule reads_tl [OF reads_skip_ws])
        qed
      next
        case nk: False
        have lit: "reads s (drop k s)" if "take k s = str l" "l \<noteq> []" "last (str l) \<noteq> BACKTICK"
          for k l
          using that by (intro reads_literal [of k s "str l"]) (simp_all add: str_def)
        have num: "reads s r" if "match_number s = Some (v', r)" for v'
        proof -
          from match_number_reads [OF that] obtain p where
            "s = p @ r" "p \<noteq> []" "is_digit (last p)" by blast
          then show ?thesis by (intro readsI [of s p r]) (auto simp: is_digit_def)
        qed
        from "2.prems" ne nq nb nk
        consider "take 4 s = str ''null''" "r = drop 4 s"
          | "take 4 s = str ''true''" "r = drop 4 s"
          | "take 5 s = str ''false''" "r = drop 5 s"
          | "take 3 s = str ''NaN''" "r = drop 3 s"
          | "take 8 s = str ''Infinity''" "r = drop 8 s"
          | "take 9 s = str ''-Infinity''" "r = drop 9 s"
          | v' where "match_number s = Some (v', r)"
          by (auto split: if_split_asm option.splits)
        then show ?thesis
        proof cases
          case 1 then show ?thesis using lit [of 4 "''null''"] by (simp add: str_def)
        next
          case 2 then show ?thesis using lit [of 4 "''true''"] by (simp add: str_def)
        next
          case 3 then show ?thesis using lit [of 5 "''false''"] by (simp add: str_def)
        next
          case 4 then show ?thesis using lit [of 3 "''NaN''"] by (simp add: str_def)
        next
          case 5 then show ?thesis using lit [of 8 "''Infinity''"] by (simp add: str_def)
        next
          case 6 then show ?thesis using lit [of 9 "''-Infinity''"] by (simp add: str_def)
        next
          case 7 then show ?thesis by (rule num)
        qed
      qed
    qed
  qed
next
  case (3 s acc)
  then show ?case by simp
next
  case (4 n s acc)
  from "4.prems" obtain v' r' where s: "scan_once n s = Scanned v' r'"
    by (auto split: scanned.splits)
  from "4.IH"(1) [OF s] have r': "reads s r'" .
  show ?case
  proof (cases "next_is RBRACKET (skip_ws r')")
    case True
    with "4.prems" s have "r = tl (skip_ws r')" by simp
    with reads_closing [OF True] r' show ?thesis by (auto intro: reads_then)
  next
    case False
    with "4.prems" s have c: "next_is COMMA (skip_ws r')"
      and p: "parse_array n (skip_ws (tl (skip_ws r'))) (acc @ [v']) = Scanned v r"
      by (auto split: if_split_asm)
    from reads_after_sep [OF c _ "4.IH"(2) [OF s False c p]] r' show ?thesis
      by (auto intro: reads_then)
  qed
next
  case (5 s acc)
  then show ?case by simp
next
  case (6 n s acc)
  from "6.prems" have q: "next_is QUOTE s" by (auto split: if_split_asm)
  with "6.prems" obtain key r1 where k: "scanstring (tl s) = Some (key, r1)"
    by (auto split: option.splits)
  from scanstring_suffix [OF k] obtain p where "tl s = p @ QUOTE # r1" ..
  with q have "s = (QUOTE # p @ [QUOTE]) @ r1" by (cases s) (simp_all add: next_is_def)
  then have r1: "reads s r1" by (rule readsI) simp_all
  from "6.prems" q k have col: "next_is COLON (skip_ws r1)" by (auto split: if_split_asm)
  with "6.prems" q k obtain v' r2 where s: "scan_once n (skip_ws (tl (skip_ws r1))) = Scanned v' r2"
    by (auto split: scanned.splits)
  have q': "\<not> \<not> next_is QUOTE s" using q by simp
  have col': "\<not> \<not> next_is COLON (skip_ws r1)" using col by simp
  from reads_after_sep [OF col _ "6.IH"(1) [OF q' k refl col' s]] r1
  have r2: "reads s r2" by (auto intro: reads_then)
  show ?case
  proof (cases "next_is RBRACE (skip_ws r2)")
    case True
    with "6.prems" q k col s have "r = tl (skip_ws r2)" by simp
    with reads_closing [OF True] r2 show ?thesis by (auto intro: reads_then)
  next
    case False
    with "6.prems" q k col s have c: "next_is COMMA (skip_ws r2)"
      and p: "parse_object n (skip_ws (tl (skip_ws r2))) (dict_set key v' acc) = Scanned v r"
      by (auto split: if_split_asm)
    from reads_after_sep [OF c _ "6.IH"(2) [OF q' k refl col' s False c p]] r2
    show ?thesis by (auto intro: reads_then)
  qed
qed

lemma scan_once_first:
  assumes "scan_once n s = Scanned v r"
  shows "s \<noteq> [] \<and> hd s \<noteq> BACKTICK"
proof (rule ccontr)
  assume "\<not> (s \<noteq> [] \<and> hd s \<noteq> BACKTICK)"
  then consider "s = []" | t where "s = BACKTICK # t" by (cases s) auto
  then show False
  proof cases
    case 1
    with assms show False by (cases n) simp_all
  next
    case 2
    have "match_number (BACKTICK # t) = None"
      by (simp add: match_number_def next_is_def is_digit_def)
    with assms 2 show False
      by (cases n) (simp_all add: str_def)
  qed
qed

section \<open>Evaluating the model\<close>

lemmas scan_numeral =
  scan_once.simps(2) [where n = "pred_numeral k" for k, unfolded numeral_eq_Suc [symmetric]]
  parse_array.simps(2) [where n = "pred_numeral k" for k, unfolded numeral_eq_Suc [symmetric]]
  parse_object.simps(2) [where n = "pred_numeral k" for k, unfolded numeral_eq_Suc [symmetric]]

lemmas decoder_defs =
  json_loads_def skip_ws_def is_json_ws_def next_is_def is_digit_def match_number_def
  int_part_def frac_part_def exp_part_def int_of_digits_def hex4_def hexval_def unescape_def
  Let_def scan_numeral

lemmas string_defs =
  str_def cleaned_text_def strip_def strip_chars_def strip_where_def is_space_def

lemmas fetch_defs =
  post_def output_text_of_def getitem_key_def getitem_index_def reply_def answering_def
  refusing_def

section \<open>Cleaning and decoding the completion text\<close>

lemma strip_where_clean:
  "s = [] \<or> (\<not> p (hd s) \<and> \<not> p (last s)) \<Longrightarrow> strip_where p s = s"
proof (cases "s = []")
  case True
  then show ?thesis by (simp add: strip_where_def)
next
  case False
  assume "s = [] \<or> (\<not> p (hd s) \<and> \<not> p (last s))"
  with False have h: "\<not> p (hd s)" and l: "\<not> p (last s)" by simp_all
  from False h have 1: "dropWhile p s = s" by (cases s) simp_all
  from False l have 2: "dropWhile p (rev s) = rev s"
    by (cases "rev s") (simp_all add: last_rev [symmetric] hd_rev)
  show ?thesis by (simp add: strip_where_def 1 2)
qed

lemma strip_chars_backticks:
  "strip_chars [BACKTICK, BACKTICK, BACKTICK] s = strip_where (\<lambda>c. c = BACKTICK) s"
  by (simp add: strip_chars_def)




text \<open>A JSON text with no white space around it is clean.\<close>

lemma json_ws_is_space: "is_json_ws c \<Longrightarrow> is_space c"
  by (auto simp: is_json_ws_def is_space_def)

lemma json_text_clean:
  assumes "json_loads s = Inr v" "\<not> is_space (hd s)" "\<not> is_space (last s)"
  shows "clean s"
proof -
  from assms(1) obtain r where sc: "scan_once (Suc (2 * length s)) (skip_ws s) = Scanned v r"
    and r: "skip_ws r = []"
    unfolding json_loads_def
    by (cases "scan_once (Suc (2 * length s)) (skip_ws s)")
       (auto simp del: scan_once.simps split: if_split_asm)
  from scan_once_first [OF sc] have "skip_ws s \<noteq> []" by simp
  then have ne: "s \<noteq> []" by (auto simp: skip_ws_def)
  with assms(2) have sk: "skip_ws s = s"
    by (cases s) (auto simp: skip_ws_def dest: json_ws_is_space)
  from scan_once_first [OF sc] sk have hd: "hd s \<noteq> BACKTICK" by simp
  from scanned_reads(1) [OF sc] sk obtain p where p: "s = p @ r" "p \<noteq> []" "last p \<noteq> BACKTICK"
    by (auto simp: reads_def)
  have "r = []"
  proof (rule ccontr)
    assume n: "r \<noteq> []"
    from r have "\<forall>c \<in> set r. is_json_ws c"
      by (simp add: skip_ws_def dropWhile_eq_Nil_conv)
    with n have "is_json_ws (last r)" by simp
    with p(1) n assms(3) show False by (auto dest: json_ws_is_space)
  qed
  with p have "last s \<noteq> BACKTICK" by simp
  with ne hd assms(2,3) show ?thesis by (simp add: clean_def)
qed

lemma batch_on_completion:
  assumes "respond e (length calls) (request_batch k w) = Responded r" and "completion_is r t"
  shows "fst (get_pronunciation_batch e k calls w) =
     (case json_loads (cleaned_text t) of
        Inr v \<Rightarrow> Inr v
      | Inl x \<Rightarrow> Inr (JDict [(str ''error'', JStr (str ''Failed to parse JSON from LLM output'')),
                              (str ''raw_output'', JStr t)]))"
proof (cases "json_loads (cleaned_text t)")
  case (Inl x)
  with json_loads_Inl [OF Inl] assms show ?thesis
    by (auto simp add: get_pronunciation_batch_def post_def completion_is_def split: sum.splits)
next
  case (Inr v)
  with assms show ?thesis
    by (auto simp add: get_pronunciation_batch_def post_def completion_is_def split: sum.splits)
qed

lemma app_on_completion:
  assumes "respond e (length calls) (request_app k w) = Responded r" and "completion_is r t"
  shows "fst (get_pronunciation_app e k calls w) =
     (case json_loads (cleaned_text t) of
        Inr v \<Rightarrow> Inr v
      | Inl x \<Rightarrow> Inr (JDict [(str ''error'', JStr (str ''Failed to parse JSON from LLM output'')),
                              (str ''raw_output'', JStr t),
                              (str ''word'', JStr w)]))"
proof (cases "json_loads (cleaned_text t)")
  case (Inl x)
  with json_loads_Inl [OF Inl] assms show ?thesis
    by (auto simp add: get_pronunciation_app_def attempt_def post_def completion_is_def
             split: sum.splits)
next
  case (Inr v)
  with assms show ?thesis
    by (auto simp add: get_pronunciation_app_def attempt_def post_def completion_is_def
             split: sum.splits)
qed

text \<open>The sample completions, cleaned and decoded.\<close>

lemma completion_is_reply: "completion_is (reply t) t"
  by (simp add: completion_is_def fetch_defs)


lemma braces_decode: "json_loads (cleaned_text (str ''{}'')) = Inr (JDict [])"
  by (simp add: decoder_defs string_defs)


lemma error_list_decodes: "json_loads (cleaned_text error_list) = Inr (JList [JStr (str ''error'')])"
  by (simp add: error_list_def decoder_defs string_defs)

section \<open>The fetcher and its failures\<close>

text \<open>
  What the interactive variant returns: the value decoded from the completion, or an error
  value that names the word.
\<close>

lemma app_outcome:
  "\<exists>v. fst (get_pronunciation_app e k calls w) = Inr v \<and>
       (parsed_completion (respond e (length calls) (request_app k w)) = Some v \<or>
        is_pronunciation_error v \<and> field (str ''word'') v = Some (JStr w))"
proof -
  have s: "str ''error'' \<noteq> str ''word''" "str ''error'' \<noteq> str ''details''"
    "str ''error'' \<noteq> str ''raw_output''" "str ''details'' \<noteq> str ''word''"
    "str ''raw_output'' \<noteq> str ''word''"
    by (simp_all add: str_def)
  show ?thesis
    using s
    by (auto simp add: get_pronunciation_app_def attempt_def post_def parsed_completion_def
          is_pronunciation_error_def holds_string_def field_def
          split: post_outcome.splits sum.splits json.splits exn.splits dest: json_loads_Inl)
qed

text \<open>What the batch variant returns, when it returns.\<close>

lemma batch_outcome:
  "fst (get_pronunciation_batch e k calls w) = Inr v \<Longrightarrow>
     parsed_completion (respond e (length calls) (request_batch k w)) = Some v \<or>
     is_pronunciation_error v"
  by (auto simp add: get_pronunciation_batch_def post_def parsed_completion_def
        is_pronunciation_error_def holds_string_def field_def
        split: post_outcome.splits sum.splits json.splits exn.splits if_split_asm)

text \<open>Each call of the fetcher sends one request, whatever comes back.\<close>

lemma requests_sent:
  "snd (get_pronunciation_batch e k calls w) = calls @ [request_batch k w]"
  "snd (get_pronunciation_app e k calls w) = calls @ [request_app k w]"
  by (simp_all add: get_pronunciation_batch_def get_pronunciation_app_def post_def
        split: prod.splits post_outcome.splits)

text \<open>
  The interactive variant catches whatever its \<^verbatim>\<open>try\<close> raises, so it returns a value in every
  environment.
\<close>

lemma get_pronunciation_app_returns:
  "\<exists>v. fst (get_pronunciation_app e k calls w) = Inr v"
  by (simp add: get_pronunciation_app_def split: prod.splits sum.splits exn.splits)

text \<open>
  C1. The fetcher is to return a value for every word and never raise past its boundary,
  in both variants. The batch variant has no handler around the request: when the
  connection is refused for the word \<^verbatim>\<open>toilet\<close>, the exception leaves \<^verbatim>\<open>get_pronunciation\<close>,
  where the interactive variant returns a connection-error value for the same call.
\<close>

theorem get_pronunciation_batch_raises:
  "fst (get_pronunciation_batch refusing (str ''key'') [] (str ''toilet'')) =
     Inl (RequestsConnectionError (str ''refused'')) \<and>
   fst (get_pronunciation_app refusing (str ''key'') [] (str ''toilet'')) =
     Inr (JDict [(str ''error'', JStr (str ''Connection error'')),
                 (str ''details'', JStr (str ''refused'')),
                 (str ''word'', JStr (str ''toilet''))])"
  by (simp add: get_pronunciation_batch_def get_pronunciation_app_def attempt_def fetch_defs)

text \<open>
  C3. Every completion request is to carry a finite timeout of some tens of seconds. Each
  call of the fetcher sends exactly one request; the one of the interactive variant has a
  timeout of 30 seconds, the one of the batch variant has none.
\<close>

theorem request_batch_has_no_timeout:
  "snd (get_pronunciation_batch e k calls w) = calls @ [request_batch k w] \<and>
   timeout (request_batch k w) = None \<and>
   snd (get_pronunciation_app e k calls w) = calls @ [request_app k w] \<and>
   timeout (request_app k w) = Some 30"
  by (simp add: get_pronunciation_batch_def get_pronunciation_app_def post_def
        request_batch_def request_app_def split: prod.splits post_outcome.splits)

text \<open>
  C6. The cleanup step is the identity on an already clean string: a string with no white
  space and no backtick at either end comes out unchanged, and so does every text that
  \<^verbatim>\<open>json.loads\<close> accepts and that has no white space around it (such a text has no backtick
  at either end).
\<close>

theorem cleaned_text_of_clean:
  "(clean s \<longrightarrow> cleaned_text s = s) \<and>
   (json_loads s = Inr v \<and> \<not> is_space (hd s) \<and> \<not> is_space (last s) \<longrightarrow> cleaned_text s = s)"
proof -
  have c: "cleaned_text s = s" if c: "clean s" for s
  proof -
    from c have ws: "strip s = s"
      unfolding strip_def clean_def by (intro strip_where_clean) auto
    from c have bt: "strip_chars [BACKTICK, BACKTICK, BACKTICK] s = s"
      unfolding strip_chars_def clean_def by (intro strip_where_clean) auto
    show ?thesis by (simp add: cleaned_text_def ws bt)
  qed
  then show ?thesis by (auto dest: json_text_clean)
qed

theorem cleaned_text_of_clean_witness:
  "clean (str ''{}'') \<and> json_loads (str ''{}'') = Inr (JDict []) \<and>
   \<not> is_space (hd (str ''{}'')) \<and> \<not> is_space (last (str ''{}'')) \<and>
   cleaned_text (str ''{}'') = str ''{}''"
proof -
  have c: "clean (str ''{}'')" by (simp add: clean_def str_def is_space_def)
  have j: "json_loads (str ''{}'') = Inr (JDict [])" by (simp add: decoder_defs str_def)
  have w: "\<not> is_space (hd (str ''{}''))" "\<not> is_space (last (str ''{}''))"
    by (simp_all add: str_def is_space_def)
  from cleaned_text_of_clean [of "str ''{}''" "JDict []"] c j w show ?thesis by blast
qed







text \<open>
  C2. The fetcher is to return, for every word, one value of one of two shapes: a
  PronunciationResult with its three keys, or a PronunciationError with its \<^verbatim>\<open>error\<close> key.
  The completion \<^verbatim>\<open>{}\<close> is valid JSON, so both variants return the empty dict, which has
  neither shape.
\<close>

theorem empty_object_has_neither_shape:
  "fst (get_pronunciation_batch (answering (str ''{}'')) (str ''key'') [] (str ''toilet'')) = Inr (JDict []) \<and>
   fst (get_pronunciation_app (answering (str ''{}'')) (str ''key'') [] (str ''toilet'')) = Inr (JDict []) \<and>
   \<not> is_pronunciation_result (JDict []) \<and> \<not> is_pronunciation_error (JDict [])"
proof -
  have r: "respond (answering (str ''{}'')) n req = Responded (reply (str ''{}''))" for n req
    by (simp add: answering_def)
  show ?thesis
    by (simp add: batch_on_completion [OF r completion_is_reply]
          app_on_completion [OF r completion_is_reply] braces_decode
          is_pronunciation_result_def is_pronunciation_error_def holds_string_def field_def)
qed

text \<open>
  C2 as the code has it: what the fetcher returns is either the value decoded from the
  cleaned completion, whatever its shape (the decoded value is not checked for the three
  keys), or a value with an \<^verbatim>\<open>error\<close> string. The interactive variant returns such a value
  in every environment; for the batch variant this is said of the values it returns.
\<close>

theorem fetcher_returns_parsed_or_error:
  "(\<exists>v. fst (get_pronunciation_app e k calls w) = Inr v \<and>
        (parsed_completion (respond e (length calls) (request_app k w)) = Some v \<or>
         is_pronunciation_error v)) \<and>
   (\<forall>v. fst (get_pronunciation_batch e k calls w) = Inr v \<longrightarrow>
        parsed_completion (respond e (length calls) (request_batch k w)) = Some v \<or>
        is_pronunciation_error v)"
  using app_outcome [of e k calls w] batch_outcome [of e k calls w] by blast

theorem fetcher_returns_parsed_or_error_witness:
  "fst (get_pronunciation_batch (answering (str ''{}'')) (str ''key'') [] (str ''toilet'')) = Inr (JDict []) \<and>
   parsed_completion (respond (answering (str ''{}'')) 0 (request_batch (str ''key'') (str ''toilet''))) =
     Some (JDict [])"
proof -
  have r: "respond (answering (str ''{}'')) n req = Responded (reply (str ''{}''))" for n req
    by (simp add: answering_def)
  have b: "fst (get_pronunciation_batch (answering (str ''{}'')) (str ''key'') [] (str ''toilet'')) =
      Inr (JDict [])"
    by (simp add: batch_on_completion [OF r completion_is_reply] braces_decode)
  have n: "\<not> is_pronunciation_error (JDict [])"
    by (simp add: is_pronunciation_error_def holds_string_def field_def)
  from fetcher_returns_parsed_or_error [of "answering (str ''{}'')" "str ''key''" "[]" "str ''toilet''"]
       b n
  show ?thesis by simp
qed

section \<open>The form and the scripts\<close>

text \<open>
  Filtering before trimming gives what trimming before filtering gives, and the loop of the
  form sends one request for each word, whatever the earlier ones gave.
\<close>

lemma filter_strip: "map strip (filter (\<lambda>w. strip w \<noteq> []) ws) = filter (\<lambda>w. w \<noteq> []) (map strip ws)"
  by (induction ws) simp_all

lemma toilet_computer_water:
  "words_of (str ''toilet, computer, water'') = [str ''toilet'', str ''computer'', str ''water'']"
  by (simp add: words_of_def strip_def strip_where_def str_def is_space_def)

lemma only_separators: "words_of (str '' , ,  '') = []"
  by (simp add: words_of_def strip_def strip_where_def str_def is_space_def)



text \<open>
  When every output of the fetcher is a dict, each word adds one result and one count, and
  the failures are the results with an \<^verbatim>\<open>error\<close> key.
\<close>

lemma process_word_dict:
  assumes "get_pronunciation_app e k (snd st) w = (Inr (JDict kvs), c)"
  shows "process_word e k w st =
     ((if str ''error'' \<in> set (map fst kvs)
       then (fst st)\<lparr>all_outputs := all_outputs (fst st) @ [JDict kvs],
                     failed_conversions := failed_conversions (fst st) + 1\<rparr>
       else (fst st)\<lparr>all_outputs := all_outputs (fst st) @ [JDict kvs],
                     successful_conversions := successful_conversions (fst st) + 1\<rparr>), c)"
  using assms by (simp add: process_word_def py_in_def py_get_def Let_def)

lemma all_outputs_kept:
  "take (length (all_outputs (fst st))) (all_outputs (fst (process_words e k ws st))) =
     all_outputs (fst st)"
proof (induction ws arbitrary: st)
  case Nil
  then show ?case by simp
next
  case (Cons a ws)
  have "\<exists>xs. all_outputs (fst (process_word e k a st)) = all_outputs (fst st) @ xs"
    by (auto simp: process_word_def critical_def Let_def
          split: prod.splits sum.splits bool.splits)
  then obtain xs where xs: "all_outputs (fst (process_word e k a st)) = all_outputs (fst st) @ xs" ..
  from Cons [of "process_word e k a st"]
  have "take (length (all_outputs (fst st))) (take (length (all_outputs (fst st) @ xs))
          (all_outputs (fst (process_words e k ws (process_word e k a st))))) =
        take (length (all_outputs (fst st))) (all_outputs (fst st) @ xs)"
    by (simp add: xs)
  then show ?case by (simp add: min_def)
qed

lemma dict_outputs_are_counted_once:
  assumes "\<And>calls w. \<exists>kvs. fst (get_pronunciation_app e k calls w) = Inr (JDict kvs)"
  shows "length (all_outputs (fst (process_words e k ws st))) =
           length (all_outputs (fst st)) + length ws \<and>
         successful_conversions (fst (process_words e k ws st)) +
           failed_conversions (fst (process_words e k ws st)) =
           successful_conversions (fst st) + failed_conversions (fst st) + length ws \<and>
         failed_conversions (fst (process_words e k ws st)) =
           failed_conversions (fst st) +
           length (filter (\<lambda>v. py_in (str ''error'') v = Inr True)
                     (drop (length (all_outputs (fst st)))
                        (all_outputs (fst (process_words e k ws st)))))"
proof (induction ws arbitrary: st)
  case Nil
  then show ?case by simp
next
  case (Cons w ws)
  from assms [of "snd st" w] obtain kvs where
    "fst (get_pronunciation_app e k (snd st) w) = Inr (JDict kvs)" ..
  then obtain c where g: "get_pronunciation_app e k (snd st) w = (Inr (JDict kvs), c)"
    by (cases "get_pronunciation_app e k (snd st) w") simp
  let ?st = "process_word e k w st"
  note pw = process_word_dict [OF g]
  have 1: "all_outputs (fst ?st) = all_outputs (fst st) @ [JDict kvs]"
    by (simp add: pw)
  have 2: "successful_conversions (fst ?st) + failed_conversions (fst ?st) =
           successful_conversions (fst st) + failed_conversions (fst st) + 1"
    by (simp add: pw)
  have 3: "failed_conversions (fst ?st) =
           failed_conversions (fst st) + (if str ''error'' \<in> set (map fst kvs) then 1 else 0)"
    by (simp add: pw)
  let ?out = "all_outputs (fst (process_words e k ws ?st))"
  from Cons.IH [of ?st] have len: "length ?out = length (all_outputs (fst ?st)) + length ws"
    and cnt: "successful_conversions (fst (process_words e k ws ?st)) +
           failed_conversions (fst (process_words e k ws ?st)) =
           successful_conversions (fst ?st) + failed_conversions (fst ?st) + length ws"
    and fl: "failed_conversions (fst (process_words e k ws ?st)) =
           failed_conversions (fst ?st) +
           length (filter (\<lambda>v. py_in (str ''error'') v = Inr True)
                     (drop (length (all_outputs (fst ?st))) ?out))"
    by simp_all
  have pre: "take (length (all_outputs (fst st)) + 1) ?out = all_outputs (fst st) @ [JDict kvs]"
    using all_outputs_kept [where st = ?st and e = e and k = k and ws = ws] by (simp add: 1)
  have "drop (length (all_outputs (fst st))) ?out =
          JDict kvs # drop (length (all_outputs (fst st)) + 1) ?out"
  proof -
    have "?out = take (length (all_outputs (fst st)) + 1) ?out @
                 drop (length (all_outputs (fst st)) + 1) ?out" by simp
    also have "\<dots> = all_outputs (fst st) @ JDict kvs # drop (length (all_outputs (fst st)) + 1) ?out"
      by (simp only: pre) simp
    finally have "drop (length (all_outputs (fst st))) ?out =
       drop (length (all_outputs (fst st)))
         (all_outputs (fst st) @ JDict kvs # drop (length (all_outputs (fst st)) + 1) ?out)"
      by simp
    then show ?thesis by simp
  qed
  then have dr: "length (filter (\<lambda>v. py_in (str ''error'') v = Inr True)
                     (drop (length (all_outputs (fst st))) ?out)) =
        (if str ''error'' \<in> set (map fst kvs) then 1 else 0) +
        length (filter (\<lambda>v. py_in (str ''error'') v = Inr True)
                     (drop (length (all_outputs (fst ?st))) ?out))"
    by (simp add: 1 py_in_def)
  show ?case
    using len cnt fl 1 2 3 dr by simp
qed

text \<open>
  C7. The form splits its input on commas, trims each piece and discards the empty ones:
  \<^verbatim>\<open>toilet, computer, water\<close> gives the three words, an input of separators and white space
  gives the empty list, and then a warning is shown and no request is sent.
\<close>

theorem words_of_splits_trims_discards:
  "words_of s = filter (\<lambda>w. w \<noteq> []) (map strip (split COMMA s)) \<and>
   words_of (str ''toilet, computer, water'') = [str ''toilet'', str ''computer'', str ''water''] \<and>
   words_of (str '' , ,  '') = [] \<and>
   (words_of s = [] \<longrightarrow>
      convert e k calls s = ([St_warning (str ''Please enter at least one word.'')], calls))"
  by (simp add: toilet_computer_water only_separators convert_def)
     (simp add: words_of_def filter_strip)

theorem words_of_splits_trims_discards_witness:
  "words_of (str '' , ,  '') = [] \<and>
   convert refusing (str ''key'') [] (str '' , ,  '') =
     ([St_warning (str ''Please enter at least one word.'')], [])"
  using words_of_splits_trims_discards [of "str '' , ,  ''" refusing "str ''key''" "[]"]
  by blast




text \<open>
  C10. After the form has processed a word list, successes plus failures are to equal the
  number of words and the length of the result list, and the failures are to be the
  results with an \<^verbatim>\<open>error\<close> key. For the one word \<^verbatim>\<open>x\<close> and a completion that decodes to the
  list \<^verbatim>\<open>["error"]\<close>, the list is appended and counted as a failure, then \<^verbatim>\<open>output.get\<close>
  raises and the handler appends a second result and counts a second failure: one word,
  two results, no success, two failures.
\<close>

theorem convert_counts_one_word_twice:
  "words_of (str ''x'') = [str ''x''] \<and>
   convert (answering error_list) (str ''key'') [] (str ''x'') =
     ([St_subheader (str ''Results''),
       St_json [JList [JStr (str ''error'')],
                JDict [(str ''error'', JStr (str ''Critical processing error'')),
                       (str ''details'', JStr (str ''failed'')),
                       (str ''word'', JStr (str ''x''))]],
       St_metric (str ''Total Words'') 1,
       St_metric (str ''Successful'') 0,
       St_metric (str ''Failed'') 2,
       St_download_button (str ''Download JSON'')
         [JList [JStr (str ''error'')],
          JDict [(str ''error'', JStr (str ''Critical processing error'')),
                 (str ''details'', JStr (str ''failed'')),
                 (str ''word'', JStr (str ''x''))]]],
      [request_app (str ''key'') (str ''x'')])"
proof -
  have w: "words_of (str ''x'') = [str ''x'']"
    by (simp add: words_of_def strip_def strip_where_def str_def is_space_def)
  have r: "respond (answering error_list) n req = Responded (reply error_list)" for n req
    by (simp add: answering_def)
  have g: "get_pronunciation_app (answering error_list) (str ''key'') [] (str ''x'') =
             (Inr (JList [JStr (str ''error'')]), [request_app (str ''key'') (str ''x'')])"
    using app_on_completion [OF r completion_is_reply, where calls = "[]" and k = "str ''key''"
            and w = "str ''x''"]
          requests_sent(2) [where e = "answering error_list" and k = "str ''key''" and calls = "[]"
            and w = "str ''x''"]
    by (simp add: error_list_decodes prod_eq_iff)
  have x: "exc_str (answering error_list) y = str ''failed''" for y
    by (simp add: answering_def)
  show ?thesis
    by (simp add: w convert_def process_word_def g py_in_def py_get_def critical_def x)
qed

end
